theory Spec2Isabelle
  imports Main "HOL-Library.AList"
begin

section \<open>Python values\<close>

text \<open>
  The scrapers exchange plain Python dictionaries (\<open>Dict[str, Any]\<close>).  A dictionary is an
  association list in insertion order; \<open>map_of\<close> is \<open>dict.get\<close> and
  \<open>AList.update\<close> is item assignment (an existing key keeps its position, a new key
  goes to the end).
\<close>

datatype pyval =
    PNone
  | PBool bool
  | PInt int
  | PStr string
  | PList "pyval list"
  | PDict "(string \<times> pyval) list"

type_synonym pydict = "(string \<times> pyval) list"

text \<open>
  An exception carries the text \<open>str(exc)\<close>.  \<open>Exception\<close> stands for every instance of
  Python's \<open>Exception\<close> class, which \<open>except Exception\<close> catches; \<open>BaseException_only\<close>
  stands for the others (\<open>KeyboardInterrupt\<close>, \<open>SystemExit\<close>), which it lets through.
\<close>

datatype pyexc = Exception string | BaseException_only string

text \<open>Truth value of an object, as \<open>if x:\<close> and \<open>not x\<close> test it.\<close>

fun truthy :: "pyval \<Rightarrow> bool" where
  "truthy PNone = False"
| "truthy (PBool b) = b"
| "truthy (PInt n) = (n \<noteq> 0)"
| "truthy (PStr s) = (s \<noteq> [])"
| "truthy (PList xs) = (xs \<noteq> [])"
| "truthy (PDict d) = (d \<noteq> [])"

text \<open>\<open>type(x).__name__\<close> and \<open>str(type(x))\<close>.\<close>

fun py_type_name :: "pyval \<Rightarrow> string" where
  "py_type_name PNone = ''NoneType''"
| "py_type_name (PBool b) = ''bool''"
| "py_type_name (PInt n) = ''int''"
| "py_type_name (PStr s) = ''str''"
| "py_type_name (PList xs) = ''list''"
| "py_type_name (PDict d) = ''dict''"

definition quote :: "string \<Rightarrow> string" where
  "quote s = [CHR 0x27] @ s @ [CHR 0x27]"

definition py_type_str :: "pyval \<Rightarrow> string" where
  "py_type_str v = ''<class '' @ quote (py_type_name v) @ ''>''"

text \<open>\<open>d.setdefault(k, v)\<close>: the dictionary afterwards.\<close>

definition dict_setdefault :: "string \<Rightarrow> pyval \<Rightarrow> pydict \<Rightarrow> pydict" where
  "dict_setdefault k v d = (case map_of d k of None \<Rightarrow> d @ [(k, v)] | Some _ \<Rightarrow> d)"

text \<open>
  \<open>obj[k] = v\<close> for a string key \<open>k\<close>: a dictionary is updated, every other object raises
  \<open>TypeError\<close>.
\<close>

fun py_setitem :: "pyval \<Rightarrow> string \<Rightarrow> pyval \<Rightarrow> pyexc + pyval" where
  "py_setitem (PDict d) k v = Inr (PDict (AList.update k v d))"
| "py_setitem (PList xs) k v = Inl (Exception ''list indices must be integers or slices, not str'')"
| "py_setitem obj k v =
     Inl (Exception (quote (py_type_name obj) @ '' object does not support item assignment''))"

section \<open>The strategy chain (scrapers/combined\_scraper.py)\<close>

text \<open>
  A scraper object: its \<open>name\<close> attribute and its two methods.  Both methods may raise;
  \<open>can_handle\<close> is annotated \<open>-> bool\<close> and \<open>scrape\<close> is annotated
  \<open>-> Dict[str, Any]\<close>.
\<close>

record scraper =
  name :: string
  can_handle :: "string \<Rightarrow> pyexc + bool"
  scrape :: "string \<Rightarrow> pyexc + pydict"

text \<open>
  The chain's calls into its scrapers are its observable effects.  Each call is recorded
  with the position of the scraper in \<open>self.scrapers\<close>.
\<close>

datatype event = Call_can_handle nat | Call_scrape nat

fun position :: "event \<Rightarrow> nat" where
  "position (Call_can_handle i) = i"
| "position (Call_scrape i) = i"

text \<open>What one pass through the loop body does: go on to the next scraper with the
  error list it leaves, return from \<open>scrape\<close>, or let an exception escape.\<close>

datatype step =
    Continue "string list" "event list"
  | Return pydict "event list"
  | Raise pyexc "event list"

text \<open>Lines 110--112: \<open>result.setdefault("metadata", {})\<close>, then
  \<open>result["metadata"]["scraper"] = scraper.name\<close>.\<close>

definition forward_success :: "string \<Rightarrow> pydict \<Rightarrow> pyexc + pydict" where
  "forward_success nm result =
     (let result1 = dict_setdefault ''metadata'' (PDict []) result in
      case map_of result1 ''metadata'' of
        None \<Rightarrow> Inl (Exception (quote ''metadata''))
      | Some md \<Rightarrow>
          (case py_setitem md ''scraper'' (PStr nm) of
             Inl exc \<Rightarrow> Inl exc
           | Inr md1 \<Rightarrow> Inr (AList.update ''metadata'' md1 result1)))"

text \<open>Line 108: \<open>result.get("success")\<close> taken as a condition.\<close>

definition is_success :: "pydict \<Rightarrow> bool" where
  "is_success result = (case map_of result ''success'' of None \<Rightarrow> False | Some v \<Rightarrow> truthy v)"

text \<open>Lines 100--115, entered when the scraper was not skipped.  \<open>py_str\<close> is Python's
  \<open>str\<close> on values, which the f-string applies to \<open>result['error']\<close>.\<close>

definition run_scraper ::
  "(pyval \<Rightarrow> string) \<Rightarrow> nat \<Rightarrow> scraper \<Rightarrow> string \<Rightarrow> string list \<Rightarrow> event list \<Rightarrow> step" where
  "run_scraper py_str i scraper url errors called =
     (case scrape scraper url of
        Inl (Exception msg) \<Rightarrow>
          Continue (errors @ [name scraper @ '' scraper raised exception: '' @ msg])
                   (called @ [Call_scrape i])
      | Inl (BaseException_only msg) \<Rightarrow>
          Raise (BaseException_only msg) (called @ [Call_scrape i])
      | Inr result \<Rightarrow>
          (if is_success result then
             (case forward_success (name scraper) result of
                Inl exc \<Rightarrow> Raise exc (called @ [Call_scrape i])
              | Inr result1 \<Rightarrow> Return result1 (called @ [Call_scrape i]))
           else
             (case map_of result ''error'' of
                None \<Rightarrow> Continue errors (called @ [Call_scrape i])
              | Some err \<Rightarrow>
                  if truthy err
                  then Continue (errors @ [name scraper @ '': '' @ py_str err])
                                (called @ [Call_scrape i])
                  else Continue errors (called @ [Call_scrape i]))))"

text \<open>Lines 88--115: the whole loop body for the scraper at position \<open>i\<close>.\<close>

definition loop_body ::
  "(pyval \<Rightarrow> string) \<Rightarrow> nat \<Rightarrow> scraper \<Rightarrow> string \<Rightarrow> string list \<Rightarrow> step" where
  "loop_body py_str i scraper url errors =
     (if name scraper \<noteq> ''file'' then
        (case can_handle scraper url of
           Inl (Exception msg) \<Rightarrow> Continue errors [Call_can_handle i]
         | Inl (BaseException_only msg) \<Rightarrow> Raise (BaseException_only msg) [Call_can_handle i]
         | Inr ok \<Rightarrow>
             if \<not> ok then Continue errors [Call_can_handle i]
             else run_scraper py_str i scraper url errors [Call_can_handle i])
      else run_scraper py_str i scraper url errors [])"

text \<open>Lines 116--125: the dictionary returned when no scraper succeeded.\<close>

definition all_failed :: "string list \<Rightarrow> pydict" where
  "all_failed errors =
     [(''success'', PBool False),
      (''text'', PStr ''''),
      (''images'', PList []),
      (''links'', PList []),
      (''metadata'', PDict [(''scraper'', PStr ''none'')]),
      (''errors'', PList (map PStr errors)),
      (''error'', PStr ''All scraping strategies failed'')]"

text \<open>The \<open>for\<close> loop of \<open>CombinedScraper.scrape\<close>, from position \<open>i\<close> on, with the
  error list and the calls made so far.\<close>

fun scrape_loop ::
  "(pyval \<Rightarrow> string) \<Rightarrow> nat \<Rightarrow> scraper list \<Rightarrow> string \<Rightarrow> string list \<Rightarrow> event list
     \<Rightarrow> (pyexc + pydict) \<times> event list" where
  "scrape_loop py_str i [] url errors called = (Inr (all_failed errors), called)"
| "scrape_loop py_str i (scraper # rest) url errors called =
     (case loop_body py_str i scraper url errors of
        Continue errors1 evs \<Rightarrow> scrape_loop py_str (Suc i) rest url errors1 (called @ evs)
      | Return result evs \<Rightarrow> (Inr result, called @ evs)
      | Raise exc evs \<Rightarrow> (Inl exc, called @ evs))"

text \<open>\<open>CombinedScraper.scrape\<close>: what it returns or raises, and the calls it made.\<close>

definition combined_scrape ::
  "(pyval \<Rightarrow> string) \<Rightarrow> scraper list \<Rightarrow> string \<Rightarrow> (pyexc + pydict) \<times> event list" where
  "combined_scrape py_str scrapers url = scrape_loop py_str 0 scrapers url [] []"

section \<open>The task manager (tasks.py)\<close>

subsection \<open>Futures of the thread pool\<close>

text \<open>
  \<open>TaskManager\<close> keeps \<open>concurrent.futures.Future\<close> objects, which the worker threads
  of the \<open>ThreadPoolExecutor\<close> share with it.  A future has the five states of the
  standard library; \<open>work\<close> is what the submitted call \<open>fn(*args, **kwargs)\<close> does when
  a worker runs it (it returns a value or raises), \<open>outcome\<close> is what \<open>set_result\<close> or
  \<open>set_exception\<close> stored (initially the result \<open>None\<close>), and each entry of
  \<open>done_callbacks\<close> is a closure \<open>_callback\<close> of \<open>submit\<close>, given by the
  \<open>job_id\<close> it captured.
\<close>

datatype fstate = PENDING | RUNNING | CANCELLED | CANCELLED_AND_NOTIFIED | FINISHED

record future =
  fstate :: fstate
  work :: "pyexc + pyval"
  outcome :: "pyexc + pyval"
  done_callbacks :: "string list"

text \<open>\<open>Future.done()\<close>.\<close>

definition future_done :: "future \<Rightarrow> bool" where
  "future_done fut =
     (fstate fut = CANCELLED \<or> fstate fut = CANCELLED_AND_NOTIFIED \<or> fstate fut = FINISHED)"

text \<open>\<open>Future.result()\<close>: a cancelled future raises \<open>CancelledError()\<close>, an instance of
  \<open>Exception\<close> with empty text; a finished one re-raises or returns its outcome; on a
  future that is not done the caller waits (\<open>None\<close>).\<close>

definition future_result :: "future \<Rightarrow> (pyexc + pyval) option" where
  "future_result fut =
     (case fstate fut of
        CANCELLED \<Rightarrow> Some (Inl (Exception []))
      | CANCELLED_AND_NOTIFIED \<Rightarrow> Some (Inl (Exception []))
      | FINISHED \<Rightarrow> Some (outcome fut)
      | _ \<Rightarrow> None)"

subsection \<open>The completion callback\<close>

text \<open>Lines 70--81 of \<open>_callback\<close>: the dictionary to store for what \<open>fut.result()\<close>
  returned or raised.  An exception outside \<open>Exception\<close> is not caught.\<close>

definition callback_result :: "pyexc + pyval \<Rightarrow> pyexc + pydict" where
  "callback_result r =
     (case r of
        Inr (PDict d) \<Rightarrow> Inr d
      | Inr v \<Rightarrow>
          Inr [(''success'', PBool False),
               (''error'', PStr (''Invalid result type '' @ py_type_str v))]
      | Inl (Exception msg) \<Rightarrow> Inr [(''success'', PBool False), (''error'', PStr msg)]
      | Inl (BaseException_only msg) \<Rightarrow> Inl (BaseException_only msg))"

text \<open>\<open>_callback(fut)\<close> for the closure of job \<open>job_id\<close>, acting on \<open>self._results\<close>.\<close>

definition callback ::
  "string \<Rightarrow> future \<Rightarrow> (string \<rightharpoonup> pydict) \<Rightarrow> (pyexc + (string \<rightharpoonup> pydict)) option" where
  "callback job_id fut results =
     (case future_result fut of
        None \<Rightarrow> None
      | Some r \<Rightarrow>
          (case callback_result r of
             Inl exc \<Rightarrow> Some (Inl exc)
           | Inr result \<Rightarrow> Some (Inr (results(job_id \<mapsto> result)))))"

text \<open>\<open>Future._invoke_callbacks\<close>: the callbacks in order; an \<open>Exception\<close> raised by one is
  logged, any other exception escapes and ends the loop.\<close>

fun invoke_callbacks ::
  "future \<Rightarrow> string list \<Rightarrow> (string \<rightharpoonup> pydict) \<Rightarrow> (string \<rightharpoonup> pydict) option" where
  "invoke_callbacks fut [] results = Some results"
| "invoke_callbacks fut (job_id # cbs) results =
     (case callback job_id fut results of
        None \<Rightarrow> None
      | Some (Inl (Exception msg)) \<Rightarrow> invoke_callbacks fut cbs results
      | Some (Inl (BaseException_only msg)) \<Rightarrow> Some results
      | Some (Inr results1) \<Rightarrow> invoke_callbacks fut cbs results1)"

subsection \<open>The shared state and its atomic steps\<close>

text \<open>
  \<open>heap\<close> holds the future objects by address, \<open>futures\<close> is \<open>self._futures\<close> and
  \<open>results\<close> is \<open>self._results\<close>.  The remaining fields are the control state of the
  threads: for every call of \<open>submit\<close>, named by the \<open>job_id\<close> it drew, its local
  variable \<open>future\<close> and how far it has come; the futures whose state has just become
  done in a thread that has yet to call \<open>_invoke_callbacks\<close>; and the next free address.
\<close>

datatype pc = Created | Registered | Returned

record system =
  heap :: "nat \<Rightarrow> future"
  futures :: "string \<rightharpoonup> nat"
  results :: "string \<rightharpoonup> pydict"
  submits :: "string \<rightharpoonup> nat \<times> pc"
  notifying :: "nat set"
  next_ref :: nat

definition new_future :: "pyexc + pyval \<Rightarrow> future" where
  "new_future w = \<lparr>fstate = PENDING, work = w, outcome = Inr PNone, done_callbacks = []\<rparr>"

definition init :: system where
  "init = \<lparr>heap = (\<lambda>r. new_future (Inr PNone)), futures = Map.empty, results = Map.empty,
           submits = Map.empty, notifying = {}, next_ref = 0\<rparr>"

text \<open>
  The steps that threads take one at a time, each inside one critical section:
  \<^item> \<open>Submit_executor\<close>: lines 64--65, \<open>uuid4\<close> draws an identifier not drawn before and
    \<open>executor.submit\<close> creates the pending future;
  \<^item> \<open>Submit_register\<close>: lines 66--67;
  \<^item> \<open>Submit_add_callback\<close>: line 84, \<open>add_done_callback\<close> appends the callback, or
    calls it at once when the future is already done;
  \<^item> \<open>Worker_claim\<close>: a worker takes the work item, \<open>set_running_or_notify_cancel\<close>;
  \<^item> \<open>Worker_finish\<close>: the work has run, \<open>set_result\<close> or \<open>set_exception\<close> makes the
    future \<open>FINISHED\<close>;
  \<^item> \<open>Invoke_callbacks\<close>: the thread that made the future done calls its callbacks
    (\<open>set_result\<close>, \<open>set_exception\<close> and \<open>Future.cancel\<close> change the state inside the
    future's condition and call \<open>_invoke_callbacks\<close> after leaving it);
  \<^item> \<open>Cancel\<close>: lines 139--147, up to the end of the critical section of
    \<open>Future.cancel\<close>.
\<close>

datatype action =
    Submit_executor string "pyexc + pyval"
  | Submit_register string
  | Submit_add_callback string
  | Worker_claim nat
  | Worker_finish nat
  | Invoke_callbacks nat
  | Cancel string

text \<open>\<open>Future.cancel()\<close> inside its critical section: the value it will return, whether
  the callbacks are to be invoked, and the future afterwards.\<close>

definition future_cancel :: "future \<Rightarrow> bool \<times> bool \<times> future" where
  "future_cancel fut =
     (if fstate fut = RUNNING \<or> fstate fut = FINISHED then (False, False, fut)
      else if fstate fut = CANCELLED \<or> fstate fut = CANCELLED_AND_NOTIFIED then (True, False, fut)
      else (True, True, fut\<lparr>fstate := CANCELLED\<rparr>))"

text \<open>Lines 139--147 of \<open>TaskManager.cancel\<close> up to that point.\<close>

definition cancel_request :: "string \<Rightarrow> system \<Rightarrow> bool \<times> system" where
  "cancel_request job_id s =
     (case futures s job_id of
        None \<Rightarrow> (False, s)
      | Some r \<Rightarrow>
          (case future_cancel (heap s r) of
             (ret, notify, fut1) \<Rightarrow>
               (ret, s\<lparr>heap := (heap s)(r := fut1),
                       notifying := (if notify then insert r (notifying s) else notifying s)\<rparr>)))"

fun fire :: "action \<Rightarrow> system \<Rightarrow> system option" where
  "fire (Submit_executor job_id w) s =
     (if submits s job_id = None then
        Some (s\<lparr>heap := (heap s)(next_ref s := new_future w),
                submits := (submits s)(job_id \<mapsto> (next_ref s, Created)),
                next_ref := Suc (next_ref s)\<rparr>)
      else None)"
| "fire (Submit_register job_id) s =
     (case submits s job_id of
        Some (r, Created) \<Rightarrow>
          Some (s\<lparr>futures := (futures s)(job_id \<mapsto> r),
                  submits := (submits s)(job_id \<mapsto> (r, Registered))\<rparr>)
      | _ \<Rightarrow> None)"
| "fire (Submit_add_callback job_id) s =
     (case submits s job_id of
        Some (r, Registered) \<Rightarrow>
          (if \<not> future_done (heap s r) then
             Some (s\<lparr>heap := (heap s)(r := (heap s r)\<lparr>done_callbacks :=
                                              done_callbacks (heap s r) @ [job_id]\<rparr>),
                     submits := (submits s)(job_id \<mapsto> (r, Returned))\<rparr>)
           else
             (case callback job_id (heap s r) (results s) of
                None \<Rightarrow> None
              | Some (Inl exc) \<Rightarrow> Some (s\<lparr>submits := (submits s)(job_id \<mapsto> (r, Returned))\<rparr>)
              | Some (Inr results1) \<Rightarrow>
                  Some (s\<lparr>results := results1,
                          submits := (submits s)(job_id \<mapsto> (r, Returned))\<rparr>)))
      | _ \<Rightarrow> None)"
| "fire (Worker_claim r) s =
     (if r < next_ref s \<and> fstate (heap s r) = PENDING then
        Some (s\<lparr>heap := (heap s)(r := (heap s r)\<lparr>fstate := RUNNING\<rparr>)\<rparr>)
      else if r < next_ref s \<and> fstate (heap s r) = CANCELLED then
        Some (s\<lparr>heap := (heap s)(r := (heap s r)\<lparr>fstate := CANCELLED_AND_NOTIFIED\<rparr>)\<rparr>)
      else None)"
| "fire (Worker_finish r) s =
     (if r < next_ref s \<and> fstate (heap s r) = RUNNING then
        Some (s\<lparr>heap := (heap s)(r := (heap s r)\<lparr>fstate := FINISHED,
                                                    outcome := work (heap s r)\<rparr>),
                notifying := insert r (notifying s)\<rparr>)
      else None)"
| "fire (Invoke_callbacks r) s =
     (if r \<in> notifying s then
        (case invoke_callbacks (heap s r) (done_callbacks (heap s r)) (results s) of
           None \<Rightarrow> None
         | Some results1 \<Rightarrow> Some (s\<lparr>results := results1, notifying := notifying s - {r}\<rparr>))
      else None)"
| "fire (Cancel job_id) s = Some (snd (cancel_request job_id s))"

text \<open>A schedule is a list of steps; \<open>run\<close> executes it.\<close>

fun run :: "action list \<Rightarrow> system \<Rightarrow> system option" where
  "run [] s = Some s"
| "run (a # as) s = (case fire a s of None \<Rightarrow> None | Some s1 \<Rightarrow> run as s1)"

inductive steps :: "system \<Rightarrow> system \<Rightarrow> bool" where
  steps_refl: "steps s s"
| steps_step: "steps s s1 \<Longrightarrow> fire a s1 = Some s2 \<Longrightarrow> steps s s2"

definition reachable :: "system \<Rightarrow> bool" where
  "reachable s = steps init s"

subsection \<open>The methods of TaskManager\<close>

text \<open>\<open>get_status\<close>, lines 104--106: the two reads under the lock.\<close>

definition get_status_locked :: "system \<Rightarrow> string \<Rightarrow> nat option \<times> pydict option" where
  "get_status_locked s job_id = (futures s job_id, results s job_id)"

text \<open>\<open>get_status\<close>, lines 107--111: after the lock is released, on the state \<open>s\<close> of that
  moment.\<close>

definition get_status_decide ::
  "system \<Rightarrow> nat option \<times> pydict option \<Rightarrow> string option \<times> pydict option" where
  "get_status_decide s snapshot =
     (case snapshot of
        (None, result) \<Rightarrow> (None, None)
      | (Some r, result) \<Rightarrow>
          if future_done (heap s r) then (Some ''finished'', result)
          else (Some ''pending'', None))"

text \<open>\<open>get_status\<close> when no other thread takes a step during the call.\<close>

definition get_status :: "system \<Rightarrow> string \<Rightarrow> string option \<times> pydict option" where
  "get_status s job_id = get_status_decide s (get_status_locked s job_id)"

text \<open>\<open>cancel\<close> when no other thread takes a step during the call: the value returned and
  the state afterwards (\<open>None\<close> if a callback waits for ever).\<close>

definition cancel :: "system \<Rightarrow> string \<Rightarrow> (bool \<times> system) option" where
  "cancel s job_id =
     (case futures s job_id of
        None \<Rightarrow> Some (False, s)
      | Some r \<Rightarrow>
          (case future_cancel (heap s r) of
             (ret, notify, fut1) \<Rightarrow>
               if notify then
                 (case fire (Invoke_callbacks r) (snd (cancel_request job_id s)) of
                    None \<Rightarrow> None
                  | Some s1 \<Rightarrow> Some (ret, s1))
               else Some (ret, snd (cancel_request job_id s))))"

text \<open>\<open>submit\<close> when no other thread takes a step during the call.\<close>

definition submit :: "string \<Rightarrow> pyexc + pyval \<Rightarrow> system \<Rightarrow> system option" where
  "submit job_id w s =
     run [Submit_executor job_id w, Submit_register job_id, Submit_add_callback job_id] s"

section \<open>Vocabulary for the properties of the chain\<close>

text \<open>
  What a single scraper does on a target, read off its own methods.  A scraper is
  \<open>skipped\<close> when the guard of line 95 sends the loop on, or \<open>can_handle\<close> raises an
  \<open>Exception\<close>; it is \<open>invoked\<close> when the loop comes to call its \<open>scrape\<close>.
\<close>

definition skipped :: "scraper \<Rightarrow> string \<Rightarrow> bool" where
  "skipped scraper url =
     (name scraper \<noteq> ''file'' \<and>
      (case can_handle scraper url of
         Inr ok \<Rightarrow> \<not> ok
       | Inl (Exception msg) \<Rightarrow> True
       | Inl (BaseException_only msg) \<Rightarrow> False))"

definition invoked :: "scraper \<Rightarrow> string \<Rightarrow> bool" where
  "invoked scraper url = (name scraper = ''file'' \<or> can_handle scraper url = Inr True)"

text \<open>An invoked scraper fails when \<open>scrape\<close> raises an \<open>Exception\<close> or returns a result
  whose \<open>success\<close> is not true.\<close>

definition fails :: "scraper \<Rightarrow> string \<Rightarrow> bool" where
  "fails scraper url =
     (invoked scraper url \<and>
      (case scrape scraper url of
         Inl (Exception msg) \<Rightarrow> True
       | Inl (BaseException_only msg) \<Rightarrow> False
       | Inr result \<Rightarrow> \<not> is_success result))"

text \<open>The loop passes over a scraper that is skipped or fails.\<close>

definition passes_over :: "scraper \<Rightarrow> string \<Rightarrow> bool" where
  "passes_over scraper url = (skipped scraper url \<or> fails scraper url)"

text \<open>A scraper reports its failure when \<open>scrape\<close> raises an \<open>Exception\<close> or returns a
  result with a non-empty \<open>error\<close>.\<close>

definition reports_failure :: "scraper \<Rightarrow> string \<Rightarrow> bool" where
  "reports_failure scraper url =
     (case scrape scraper url of
        Inl (Exception msg) \<Rightarrow> True
      | Inl (BaseException_only msg) \<Rightarrow> False
      | Inr result \<Rightarrow> (case map_of result ''error'' of None \<Rightarrow> False | Some err \<Rightarrow> truthy err))"

text \<open>The failure descriptions that the outcome of \<open>scrape\<close> stands for: none or one.\<close>

definition failure_entries :: "(pyval \<Rightarrow> string) \<Rightarrow> scraper \<Rightarrow> string \<Rightarrow> string list" where
  "failure_entries py_str scraper url =
     (case scrape scraper url of
        Inl (Exception msg) \<Rightarrow> [name scraper @ '' scraper raised exception: '' @ msg]
      | Inl (BaseException_only msg) \<Rightarrow> []
      | Inr result \<Rightarrow>
          (case map_of result ''error'' of
             None \<Rightarrow> []
           | Some err \<Rightarrow> if truthy err then [name scraper @ '': '' @ py_str err] else []))"

text \<open>The failure descriptions of the invoked scrapers of a list, in order.\<close>

definition accumulated :: "(pyval \<Rightarrow> string) \<Rightarrow> scraper list \<Rightarrow> string \<Rightarrow> string list" where
  "accumulated py_str scrapers url =
     concat (map (\<lambda>p. if invoked p url then failure_entries py_str p url else []) scrapers)"

text \<open>The calls expected for the scraper at position \<open>i\<close>, and for a list of scrapers
  from position \<open>i\<close> on.\<close>

definition calls_of :: "nat \<Rightarrow> scraper \<Rightarrow> string \<Rightarrow> event list" where
  "calls_of i scraper url =
     (if name scraper = ''file'' then [Call_scrape i]
      else if can_handle scraper url = Inr True then [Call_can_handle i, Call_scrape i]
      else [Call_can_handle i])"

fun calls_from :: "nat \<Rightarrow> scraper list \<Rightarrow> string \<Rightarrow> event list" where
  "calls_from i [] url = []"
| "calls_from i (p # ps) url = calls_of i p url @ calls_from (Suc i) ps url"

text \<open>Reading a record of calls: the positions whose \<open>scrape\<close> was called, in the order
  of the calls, and the scrapers at these positions.\<close>

fun invoked_positions :: "event list \<Rightarrow> nat list" where
  "invoked_positions [] = []"
| "invoked_positions (Call_scrape i # evs) = i # invoked_positions evs"
| "invoked_positions (Call_can_handle i # evs) = invoked_positions evs"

definition invoked_scrapers :: "scraper list \<Rightarrow> event list \<Rightarrow> scraper list" where
  "invoked_scrapers scrapers called = map (\<lambda>i. scrapers ! i) (invoked_positions called)"

fun step_events :: "step \<Rightarrow> event list" where
  "step_events (Continue errors evs) = evs"
| "step_events (Return result evs) = evs"
| "step_events (Raise exc evs) = evs"

text \<open>
  A result is well formed in its metadata when the \<open>metadata\<close> entry is absent or a
  dictionary, as the docstring of scrapers/base.py requires (``A dictionary of page
  metadata'').  \<open>metadata_of\<close> is that dictionary, empty when the entry is absent.
\<close>

definition metadata_ok :: "pydict \<Rightarrow> bool" where
  "metadata_ok result =
     (case map_of result ''metadata'' of None \<Rightarrow> True | Some (PDict md) \<Rightarrow> True | Some _ \<Rightarrow> False)"

definition metadata_of :: "pydict \<Rightarrow> pydict" where
  "metadata_of result = (case map_of result ''metadata'' of Some (PDict md) \<Rightarrow> md | _ \<Rightarrow> [])"

section \<open>Vocabulary for the properties of the task manager\<close>

text \<open>A future is cancelled in two of its states; the work of a future has begun once a
  worker has set it running.\<close>

definition cancelled :: "future \<Rightarrow> bool" where
  "cancelled fut = (fstate fut = CANCELLED \<or> fstate fut = CANCELLED_AND_NOTIFIED)"

definition work_begun :: "future \<Rightarrow> bool" where
  "work_begun fut = (fstate fut = RUNNING \<or> fstate fut = FINISHED)"

text \<open>What the callback stores for a cancelled future.\<close>

definition cancelled_result :: pydict where
  "cancelled_result = [(''success'', PBool False), (''error'', PStr '''')]"

text \<open>
  What is to be stored for a piece of work, case by case: an \<open>Exception\<close> becomes a
  failure with its text, a dictionary is stored as it is, any other value becomes a
  failure that names its type.  \<open>caught\<close> excludes the exceptions outside \<open>Exception\<close>,
  for which nothing is said.
\<close>

definition stored_result :: "pyexc + pyval \<Rightarrow> pydict" where
  "stored_result w =
     (case w of
        Inl (Exception msg) \<Rightarrow> [(''success'', PBool False), (''error'', PStr msg)]
      | Inl (BaseException_only msg) \<Rightarrow> []
      | Inr (PDict d) \<Rightarrow> d
      | Inr v \<Rightarrow> [(''success'', PBool False),
                  (''error'', PStr (''Invalid result type <class '' @ quote (py_type_name v) @ ''>''))])"

definition caught :: "pyexc + pyval \<Rightarrow> bool" where
  "caught w = (case w of Inl (BaseException_only msg) \<Rightarrow> False | _ \<Rightarrow> True)"

text \<open>
  Invariants of the reachable states: the future of a call of \<open>submit\<close> is allocated; an
  identifier in \<open>self._futures\<close> belongs to a call of \<open>submit\<close> that has registered it, and
  the other way round; a callback on a future belongs to the call of \<open>submit\<close> that
  created this future and has returned; and the callback of a call that has returned is
  on its future as long as the future is not done.
\<close>

definition refs_allocated :: "system \<Rightarrow> bool" where
  "refs_allocated s = (\<forall>j r p. submits s j = Some (r, p) \<longrightarrow> r < next_ref s)"

definition registered_ok :: "system \<Rightarrow> bool" where
  "registered_ok s =
     (\<forall>j r. futures s j = Some r \<longrightarrow> (\<exists>p. submits s j = Some (r, p) \<and> p \<noteq> Created))"

definition started_registered :: "system \<Rightarrow> bool" where
  "started_registered s =
     (\<forall>j r p. submits s j = Some (r, p) \<and> p \<noteq> Created \<longrightarrow> futures s j = Some r)"

definition callbacks_owned :: "system \<Rightarrow> bool" where
  "callbacks_owned s =
     (\<forall>j r. j \<in> set (done_callbacks (heap s r)) \<longrightarrow> submits s j = Some (r, Returned))"

definition callback_waiting :: "system \<Rightarrow> bool" where
  "callback_waiting s =
     (\<forall>j r. submits s j = Some (r, Returned) \<and> \<not> future_done (heap s r) \<longrightarrow>
            j \<in> set (done_callbacks (heap s r)))"

definition well_formed :: "system \<Rightarrow> bool" where
  "well_formed s =
     (refs_allocated s \<and> registered_ok s \<and> callbacks_owned s \<and> started_registered s
      \<and> callback_waiting s)"


section \<open>Example scrapers and work items\<close>

text \<open>A rendering of values for the examples: text as it is, anything else as a
  placeholder.\<close>

definition ex_str :: "pyval \<Rightarrow> string" where
  "ex_str v = (case v of PStr s \<Rightarrow> s | _ \<Rightarrow> ''<object>'')"

definition ex_declines :: scraper where
  "ex_declines = \<lparr>name = ''static'', can_handle = (\<lambda>url. Inr False),
                  scrape = (\<lambda>url. Inr [(''success'', PBool True)])\<rparr>"

definition ex_page :: scraper where
  "ex_page = \<lparr>name = ''content'', can_handle = (\<lambda>url. Inr True),
              scrape = (\<lambda>url. Inr [(''success'', PBool True), (''text'', PStr ''hello''),
                 (''metadata'', PDict [(''title'', PStr ''T''), (''scraper'', PStr ''x'')])])\<rparr>"

definition ex_quiet :: scraper where
  "ex_quiet = \<lparr>name = ''api'', can_handle = (\<lambda>url. Inr True),
               scrape = (\<lambda>url. Inr [(''success'', PBool False)])\<rparr>"

definition ex_file :: scraper where
  "ex_file = \<lparr>name = ''file'', can_handle = (\<lambda>url. Inr False),
              scrape = (\<lambda>url. Inr [(''success'', PBool False),
                 (''error'', PStr ''Resource appears to be HTML'')])\<rparr>"

definition ex_broken :: scraper where
  "ex_broken = \<lparr>name = ''dynamic'', can_handle = (\<lambda>url. Inl (Exception ''boom'')),
                scrape = (\<lambda>url. Inr [(''success'', PBool True)])\<rparr>"

text \<open>The state after a schedule from the initial state (the initial state itself if the
  schedule cannot run), and the schedule of one call of \<open>submit\<close> for the identifier
  \<open>job\<close>.\<close>

definition after :: "action list \<Rightarrow> system" where
  "after as = (case run as init of None \<Rightarrow> init | Some s \<Rightarrow> s)"

definition ex_submit :: "pyexc + pyval \<Rightarrow> action list" where
  "ex_submit w = [Submit_executor ''job'' w, Submit_register ''job'', Submit_add_callback ''job'']"


section \<open>Properties of the strategy chain\<close>

subsection \<open>Passing over skipped and failing scrapers\<close>

lemma loop_body_skipped:
  "skipped p url \<Longrightarrow> loop_body py_str i p url errors = Continue errors (calls_of i p url)"
  by (auto simp: skipped_def loop_body_def calls_of_def split: sum.splits pyexc.splits)

lemma loop_body_fails:
  "fails p url \<Longrightarrow>
   loop_body py_str i p url errors = Continue (errors @ failure_entries py_str p url) (calls_of i p url)"
  by (auto simp: fails_def invoked_def loop_body_def run_scraper_def calls_of_def failure_entries_def
           split: sum.splits pyexc.splits option.splits)

lemma skipped_not_invoked: "skipped p url \<Longrightarrow> \<not> invoked p url"
  by (auto simp: skipped_def invoked_def)

lemma loop_body_passes_over:
  assumes "passes_over p url"
  shows "loop_body py_str i p url errors =
         Continue (errors @ accumulated py_str [p] url) (calls_of i p url)"
proof (cases "skipped p url")
  case True
  then show ?thesis
    by (simp add: loop_body_skipped accumulated_def skipped_not_invoked)
next
  case False
  with assms have f: "fails p url" by (simp add: passes_over_def)
  then have "invoked p url" by (simp add: fails_def)
  with f show ?thesis by (simp add: loop_body_fails accumulated_def)
qed

lemma accumulated_Cons:
  "accumulated py_str (p # ps) url = accumulated py_str [p] url @ accumulated py_str ps url"
  by (simp add: accumulated_def)

lemma accumulated_Nil: "accumulated py_str [] url = []"
  by (simp add: accumulated_def)

lemma scrape_loop_passes_over:
  "\<forall>p\<in>set pre. passes_over p url \<Longrightarrow>
   scrape_loop py_str i (pre @ rest) url errors called =
   scrape_loop py_str (i + length pre) rest url
     (errors @ accumulated py_str pre url) (called @ calls_from i pre url)"
proof (induction pre arbitrary: i errors called)
  case Nil
  then show ?case by (simp add: accumulated_Nil)
next
  case (Cons p pre)
  have "passes_over p url" using Cons.prems by simp
  then have b: "loop_body py_str i p url errors =
      Continue (errors @ accumulated py_str [p] url) (calls_of i p url)"
    by (rule loop_body_passes_over)
  have rest: "\<forall>q\<in>set pre. passes_over q url" using Cons.prems by simp
  show ?case
    by (simp add: b Cons.IH[OF rest] accumulated_Cons[of py_str p pre])
qed

subsection \<open>The first success\<close>

lemma forward_success_ok:
  assumes "metadata_ok result"
  shows "forward_success nm result =
         Inr (AList.update ''metadata''
                (PDict (AList.update ''scraper'' (PStr nm) (metadata_of result)))
                (dict_setdefault ''metadata'' (PDict []) result))"
  using assms
  by (auto simp: metadata_ok_def metadata_of_def forward_success_def dict_setdefault_def
           split: option.splits pyval.splits)

lemma forwarded_other_keys:
  "k \<noteq> ''metadata'' \<Longrightarrow>
   map_of (AList.update ''metadata'' v (dict_setdefault ''metadata'' d result)) k = map_of result k"
  by (auto simp: update_conv' dict_setdefault_def map_add_def split: option.splits)

lemma forwarded_metadata:
  "map_of (AList.update ''metadata'' v result1) ''metadata'' = Some v"
  by (simp add: update_conv')

lemma run_scraper_success:
  assumes "scrape s url = Inr result" "is_success result" "metadata_ok result"
  shows "run_scraper py_str i s url errors called =
         Return (AList.update ''metadata''
                   (PDict (AList.update ''scraper'' (PStr (name s)) (metadata_of result)))
                   (dict_setdefault ''metadata'' (PDict []) result))
                (called @ [Call_scrape i])"
  using assms by (simp add: run_scraper_def forward_success_ok)

lemma loop_body_success:
  assumes "invoked s url" "scrape s url = Inr result" "is_success result" "metadata_ok result"
  shows "loop_body py_str i s url errors =
         Return (AList.update ''metadata''
                   (PDict (AList.update ''scraper'' (PStr (name s)) (metadata_of result)))
                   (dict_setdefault ''metadata'' (PDict []) result))
                (calls_of i s url)"
  using assms(1) run_scraper_success[OF assms(2-4)]
  by (auto simp: loop_body_def invoked_def calls_of_def)

lemma combined_scrape_success:
  assumes "\<forall>p\<in>set pre. passes_over p url"
    and "invoked s url" "scrape s url = Inr result" "is_success result" "metadata_ok result"
  shows "combined_scrape py_str (pre @ s # post) url =
         (Inr (AList.update ''metadata''
                 (PDict (AList.update ''scraper'' (PStr (name s)) (metadata_of result)))
                 (dict_setdefault ''metadata'' (PDict []) result)),
          calls_from 0 pre url @ calls_of (length pre) s url)"
  by (simp add: combined_scrape_def scrape_loop_passes_over[OF assms(1)]
        loop_body_success[OF assms(2-5)])

lemma position_calls_of: "e \<in> set (calls_of i p url) \<Longrightarrow> position e = i"
  by (auto simp: calls_of_def split: if_splits)

lemma position_calls_from:
  "e \<in> set (calls_from i ps url) \<Longrightarrow> i \<le> position e \<and> position e < i + length ps"
proof (induction ps arbitrary: i)
  case Nil
  then show ?case by simp
next
  case (Cons p ps)
  from Cons.prems have "e \<in> set (calls_of i p url) \<or> e \<in> set (calls_from (Suc i) ps url)"
    by simp
  then show ?case
  proof
    assume "e \<in> set (calls_of i p url)"
    then show ?thesis by (simp add: position_calls_of)
  next
    assume "e \<in> set (calls_from (Suc i) ps url)"
    from Cons.IH[OF this] show ?thesis by simp
  qed
qed

lemma invoked_calls_of: "invoked s url \<Longrightarrow> Call_scrape i \<in> set (calls_of i s url)"
  by (auto simp: invoked_def calls_of_def)

text \<open>
  Claim C1.  Let the loop reach the scraper \<open>s\<close> (every scraper before it is skipped or
  fails), let \<open>s\<close> be invoked and let its \<open>scrape\<close> return a result whose \<open>success\<close> is
  true and whose \<open>metadata\<close> is absent or a dictionary.  Then the chain returns a result
  whose \<open>metadata\<close> maps \<open>scraper\<close> to the name of \<open>s\<close>, \<open>success\<close> is as \<open>s\<close> returned
  it, \<open>scrape\<close> of \<open>s\<close> was called, and no method of a scraper after \<open>s\<close> was called,
  whatever scrapers \<open>post\<close> follow.
\<close>

theorem first_success_wins:
  assumes "\<forall>p\<in>set pre. passes_over p url"
    and "invoked s url"
    and "scrape s url = Inr result"
    and "is_success result"
    and "metadata_ok result"
  shows "\<exists>result1 called md1.
           combined_scrape py_str (pre @ s # post) url = (Inr result1, called)
         \<and> map_of result1 ''metadata'' = Some (PDict md1)
         \<and> map_of md1 ''scraper'' = Some (PStr (name s))
         \<and> map_of result1 ''success'' = map_of result ''success''
         \<and> Call_scrape (length pre) \<in> set called
         \<and> (\<forall>e\<in>set called. position e \<le> length pre)"
proof -
  let ?md1 = "AList.update ''scraper'' (PStr (name s)) (metadata_of result)"
  let ?r1 = "AList.update ''metadata'' (PDict ?md1)
               (dict_setdefault ''metadata'' (PDict []) result)"
  let ?called = "calls_from 0 pre url @ calls_of (length pre) s url"
  have run: "combined_scrape py_str (pre @ s # post) url = (Inr ?r1, ?called)"
    by (rule combined_scrape_success[OF assms])
  have md: "map_of ?r1 ''metadata'' = Some (PDict ?md1)"
    by (rule forwarded_metadata)
  have sc: "map_of ?md1 ''scraper'' = Some (PStr (name s))"
    by (simp add: update_conv')
  have su: "map_of ?r1 ''success'' = map_of result ''success''"
    by (rule forwarded_other_keys) simp
  have inv: "Call_scrape (length pre) \<in> set ?called"
    using invoked_calls_of[OF assms(2)] by simp
  have pos: "\<forall>e\<in>set ?called. position e \<le> length pre"
  proof
    fix e assume "e \<in> set ?called"
    then have "e \<in> set (calls_from 0 pre url) \<or> e \<in> set (calls_of (length pre) s url)"
      by simp
    then show "position e \<le> length pre"
    proof
      assume "e \<in> set (calls_from 0 pre url)"
      from position_calls_from[OF this] show ?thesis by simp
    next
      assume "e \<in> set (calls_of (length pre) s url)"
      then show ?thesis by (simp add: position_calls_of)
    qed
  qed
  from run md sc su inv pos show ?thesis by blast
qed

text \<open>
  Claim C10.  Under the same conditions the returned dictionary agrees with the result
  of \<open>s\<close> on every key other than \<open>metadata\<close>; its \<open>metadata\<close> is a dictionary that
  maps \<open>scraper\<close> to the name of \<open>s\<close>, whatever \<open>s\<close> had put there, and agrees with
  the metadata of \<open>s\<close> on every other key.
\<close>

theorem success_frame:
  assumes "\<forall>p\<in>set pre. passes_over p url"
    and "invoked s url"
    and "scrape s url = Inr result"
    and "is_success result"
    and "metadata_ok result"
  shows "\<exists>result1 called md1.
           combined_scrape py_str (pre @ s # post) url = (Inr result1, called)
         \<and> (\<forall>k. k \<noteq> ''metadata'' \<longrightarrow> map_of result1 k = map_of result k)
         \<and> map_of result1 ''metadata'' = Some (PDict md1)
         \<and> map_of md1 ''scraper'' = Some (PStr (name s))
         \<and> (\<forall>k. k \<noteq> ''scraper'' \<longrightarrow> map_of md1 k = map_of (metadata_of result) k)"
proof -
  let ?md1 = "AList.update ''scraper'' (PStr (name s)) (metadata_of result)"
  let ?r1 = "AList.update ''metadata'' (PDict ?md1)
               (dict_setdefault ''metadata'' (PDict []) result)"
  let ?called = "calls_from 0 pre url @ calls_of (length pre) s url"
  have run: "combined_scrape py_str (pre @ s # post) url = (Inr ?r1, ?called)"
    by (rule combined_scrape_success[OF assms])
  have others: "\<forall>k. k \<noteq> ''metadata'' \<longrightarrow> map_of ?r1 k = map_of result k"
    by (simp add: forwarded_other_keys)
  have md: "map_of ?r1 ''metadata'' = Some (PDict ?md1)"
    by (rule forwarded_metadata)
  have sc: "map_of ?md1 ''scraper'' = Some (PStr (name s))"
    by (simp add: update_conv')
  have keep: "\<forall>k. k \<noteq> ''scraper'' \<longrightarrow> map_of ?md1 k = map_of (metadata_of result) k"
    by (simp add: update_conv')
  from run others md sc keep show ?thesis by blast
qed

subsection \<open>The calls made by the loop\<close>

lemma run_scraper_events:
  "step_events (run_scraper py_str i s url errors called) = called @ [Call_scrape i]"
  by (simp add: run_scraper_def split: sum.splits pyexc.splits option.splits)

lemma loop_body_events_file:
  "name s = ''file'' \<Longrightarrow> step_events (loop_body py_str i s url errors) = [Call_scrape i]"
  by (simp add: loop_body_def run_scraper_events)

lemma loop_body_positions:
  "e \<in> set (step_events (loop_body py_str i s url errors)) \<Longrightarrow> position e = i"
  by (auto simp: loop_body_def run_scraper_events split: sum.splits pyexc.splits if_splits)

lemma scrape_loop_calls:
  "\<exists>evs. snd (scrape_loop py_str i ss url errors called) = called @ evs
         \<and> (\<forall>e\<in>set evs. i \<le> position e)"
proof (induction ss arbitrary: i errors called)
  case Nil
  then show ?case by simp
next
  case (Cons s ss)
  show ?case
  proof (cases "loop_body py_str i s url errors")
    case (Continue errors1 evs)
    from Cons.IH[of "Suc i" errors1 "called @ evs"] obtain later where
      l: "snd (scrape_loop py_str (Suc i) ss url errors1 (called @ evs)) = (called @ evs) @ later"
         "\<forall>e\<in>set later. Suc i \<le> position e" by blast
    have "\<forall>e\<in>set evs. position e = i"
      using loop_body_positions[of _ py_str i s url errors] Continue by simp
    with l have "\<forall>e\<in>set (evs @ later). i \<le> position e" by auto
    moreover have "snd (scrape_loop py_str i (s # ss) url errors called) = called @ (evs @ later)"
      using Continue l(1) by simp
    ultimately show ?thesis by blast
  next
    case (Return result evs)
    have "\<forall>e\<in>set evs. position e = i"
      using loop_body_positions[of _ py_str i s url errors] Return by simp
    then have "\<forall>e\<in>set evs. i \<le> position e" by simp
    moreover have "snd (scrape_loop py_str i (s # ss) url errors called) = called @ evs"
      using Return by simp
    ultimately show ?thesis by blast
  next
    case (Raise exc evs)
    have "\<forall>e\<in>set evs. position e = i"
      using loop_body_positions[of _ py_str i s url errors] Raise by simp
    then have "\<forall>e\<in>set evs. i \<le> position e" by simp
    moreover have "snd (scrape_loop py_str i (s # ss) url errors called) = called @ evs"
      using Raise by simp
    ultimately show ?thesis by blast
  qed
qed

lemma scrape_loop_Cons_calls:
  "\<exists>later. snd (scrape_loop py_str i (s # ss) url errors called) =
             called @ step_events (loop_body py_str i s url errors) @ later
         \<and> (\<forall>e\<in>set later. i < position e)"
proof (cases "loop_body py_str i s url errors")
  case (Continue errors1 evs)
  from scrape_loop_calls[of py_str "Suc i" ss url errors1 "called @ evs"] obtain later where
    "snd (scrape_loop py_str (Suc i) ss url errors1 (called @ evs)) = (called @ evs) @ later"
    "\<forall>e\<in>set later. Suc i \<le> position e" by blast
  then have "snd (scrape_loop py_str i (s # ss) url errors called) =
               called @ step_events (loop_body py_str i s url errors) @ later
             \<and> (\<forall>e\<in>set later. i < position e)"
    using Continue by auto
  then show ?thesis by blast
next
  case (Return result evs)
  then have "snd (scrape_loop py_str i (s # ss) url errors called) =
               called @ step_events (loop_body py_str i s url errors) @ []
             \<and> (\<forall>e\<in>set []. i < position e)" by simp
  then show ?thesis by blast
next
  case (Raise exc evs)
  then have "snd (scrape_loop py_str i (s # ss) url errors called) =
               called @ step_events (loop_body py_str i s url errors) @ []
             \<and> (\<forall>e\<in>set []. i < position e)" by simp
  then show ?thesis by blast
qed

lemma combined_scrape_calls_at:
  assumes "\<forall>p\<in>set pre. passes_over p url"
  shows "\<exists>later. snd (combined_scrape py_str (pre @ s # post) url) =
            calls_from 0 pre url @ step_events (loop_body py_str (length pre) s url
                (accumulated py_str pre url)) @ later
          \<and> (\<forall>e\<in>set later. length pre < position e)"
  using scrape_loop_Cons_calls[of py_str "length pre" s post url
          "accumulated py_str pre url" "calls_from 0 pre url"]
  by (simp add: combined_scrape_def scrape_loop_passes_over[OF assms])

lemma calls_from_not_at:
  "position e = i + length ps \<Longrightarrow> e \<notin> set (calls_from i ps url)"
  using position_calls_from[of e i ps url] by auto

text \<open>
  Claim C9.  When the loop reaches the scraper at position \<open>length pre\<close>: if its name is
  \<open>file\<close>, its \<open>scrape\<close> is called and its \<open>can_handle\<close> is not consulted at all; if
  its name is not \<open>file\<close> and its \<open>can_handle\<close> returns false or raises an
  \<open>Exception\<close>, then \<open>can_handle\<close> is called and \<open>scrape\<close> is not.
\<close>

theorem file_scraper_always_attempted:
  assumes "\<forall>p\<in>set pre. passes_over p url"
  shows "(name s = ''file'' \<longrightarrow>
            Call_scrape (length pre) \<in> set (snd (combined_scrape py_str (pre @ s # post) url))
          \<and> Call_can_handle (length pre) \<notin> set (snd (combined_scrape py_str (pre @ s # post) url)))
       \<and> (name s \<noteq> ''file'' \<and>
            (can_handle s url = Inr False \<or> (\<exists>msg. can_handle s url = Inl (Exception msg))) \<longrightarrow>
            Call_can_handle (length pre) \<in> set (snd (combined_scrape py_str (pre @ s # post) url))
          \<and> Call_scrape (length pre) \<notin> set (snd (combined_scrape py_str (pre @ s # post) url)))"
proof -
  let ?n = "length pre"
  let ?body = "loop_body py_str ?n s url (accumulated py_str pre url)"
  from combined_scrape_calls_at[OF assms, of py_str s post] obtain later where
    tr: "snd (combined_scrape py_str (pre @ s # post) url) =
           calls_from 0 pre url @ step_events ?body @ later"
    and later: "\<forall>e\<in>set later. ?n < position e" by blast
  have before_c: "Call_can_handle ?n \<notin> set (calls_from 0 pre url)"
    by (rule calls_from_not_at) simp
  have before_s: "Call_scrape ?n \<notin> set (calls_from 0 pre url)"
    by (rule calls_from_not_at) simp
  have after_c: "Call_can_handle ?n \<notin> set later" using later by auto
  have after_s: "Call_scrape ?n \<notin> set later" using later by auto
  have is_file: "name s = ''file'' \<longrightarrow>
            Call_scrape ?n \<in> set (snd (combined_scrape py_str (pre @ s # post) url))
          \<and> Call_can_handle ?n \<notin> set (snd (combined_scrape py_str (pre @ s # post) url))"
  proof
    assume "name s = ''file''"
    then have "step_events ?body = [Call_scrape ?n]" by (rule loop_body_events_file)
    with tr before_c after_c show "Call_scrape ?n \<in> set (snd (combined_scrape py_str (pre @ s # post) url))
          \<and> Call_can_handle ?n \<notin> set (snd (combined_scrape py_str (pre @ s # post) url))"
      by simp
  qed
  have other: "name s \<noteq> ''file'' \<and>
            (can_handle s url = Inr False \<or> (\<exists>msg. can_handle s url = Inl (Exception msg))) \<longrightarrow>
            Call_can_handle ?n \<in> set (snd (combined_scrape py_str (pre @ s # post) url))
          \<and> Call_scrape ?n \<notin> set (snd (combined_scrape py_str (pre @ s # post) url))"
  proof
    assume a: "name s \<noteq> ''file'' \<and>
            (can_handle s url = Inr False \<or> (\<exists>msg. can_handle s url = Inl (Exception msg)))"
    then have "step_events ?body = [Call_can_handle ?n]"
      by (auto simp: loop_body_def)
    with tr before_s after_s show "Call_can_handle ?n \<in> set (snd (combined_scrape py_str (pre @ s # post) url))
          \<and> Call_scrape ?n \<notin> set (snd (combined_scrape py_str (pre @ s # post) url))"
      by simp
  qed
  from is_file other show ?thesis by blast
qed

subsection \<open>Exhaustion\<close>

text \<open>
  Claim C2, amended.  If every scraper of the chain is skipped or fails, \<open>scrape\<close>
  returns the dictionary with \<open>success\<close> false, empty \<open>text\<close>, \<open>images\<close> and \<open>links\<close>,
  \<open>metadata\<close> \<open>{scraper: none}\<close>, the accumulated failure descriptions under \<open>errors\<close>,
  and \<open>error\<close> equal to \<open>All scraping strategies failed\<close>.
\<close>

theorem exhaustion_result:
  assumes "\<forall>p\<in>set scrapers. passes_over p url"
  shows "fst (combined_scrape py_str scrapers url) =
         Inr [(''success'', PBool False),
              (''text'', PStr ''''),
              (''images'', PList []),
              (''links'', PList []),
              (''metadata'', PDict [(''scraper'', PStr ''none'')]),
              (''errors'', PList (map PStr (accumulated py_str scrapers url))),
              (''error'', PStr ''All scraping strategies failed'')]"
  using scrape_loop_passes_over[OF assms, of py_str 0 "[]" "[]" "[]"]
  by (simp add: combined_scrape_def all_failed_def)

lemma invoked_positions_append:
  "invoked_positions (xs @ ys) = invoked_positions xs @ invoked_positions ys"
  by (induction xs rule: invoked_positions.induct) simp_all

lemma invoked_positions_calls_of:
  "invoked_positions (calls_of i p url) = (if invoked p url then [i] else [])"
  by (auto simp: calls_of_def invoked_def)

lemma invoked_positions_mem:
  "j \<in> set (invoked_positions evs) \<Longrightarrow> Call_scrape j \<in> set evs"
  by (induction evs rule: invoked_positions.induct) auto

lemma invoked_positions_lower:
  assumes "j \<in> set (invoked_positions (calls_from i ps url))"
  shows "i \<le> j"
  using position_calls_from[OF invoked_positions_mem[OF assms]] by simp

lemma invoked_scrapers_filter:
  "map (\<lambda>j. ss ! (j - i)) (invoked_positions (calls_from i ss url)) =
   filter (\<lambda>p. invoked p url) ss"
proof (induction ss arbitrary: i)
  case Nil
  then show ?case by simp
next
  case (Cons p ps)
  have tl: "map (\<lambda>j. (p # ps) ! (j - i)) (invoked_positions (calls_from (Suc i) ps url)) =
            map (\<lambda>j. ps ! (j - Suc i)) (invoked_positions (calls_from (Suc i) ps url))"
  proof (rule map_cong[OF refl])
    fix j assume "j \<in> set (invoked_positions (calls_from (Suc i) ps url))"
    then have "Suc i \<le> j" by (rule invoked_positions_lower)
    then have "j - i = Suc (j - Suc i)" by simp
    then show "(p # ps) ! (j - i) = ps ! (j - Suc i)" by simp
  qed
  show ?case
    by (simp add: invoked_positions_append invoked_positions_calls_of tl Cons.IH)
qed

lemma accumulated_filter:
  "accumulated py_str ss url =
   concat (map (\<lambda>p. failure_entries py_str p url) (filter (\<lambda>p. invoked p url) ss))"
  by (induction ss) (simp_all add: accumulated_def)

lemma fails_entry_count:
  "fails p url \<Longrightarrow>
   length (failure_entries py_str p url) = (if reports_failure p url then 1 else 0)"
  by (auto simp: fails_def failure_entries_def reports_failure_def
           split: sum.splits pyexc.splits option.splits)

text \<open>
  Claim C3, amended.  If every scraper of the chain is skipped or fails, the \<open>errors\<close>
  list of the returned result is the concatenation, in the order of invocation, of the
  failure descriptions of the invoked scrapers; an invoked scraper contributes exactly
  one entry when it reports its failure (\<open>scrape\<close> raised an \<open>Exception\<close>, or returned
  a non-empty \<open>error\<close>) and no entry otherwise.
\<close>

theorem errors_of_reporting_strategies:
  assumes "\<forall>p\<in>set scrapers. passes_over p url"
  shows "\<exists>result called errors.
           combined_scrape py_str scrapers url = (Inr result, called)
         \<and> map_of result ''success'' = Some (PBool False)
         \<and> map_of result ''errors'' = Some (PList (map PStr errors))
         \<and> errors = concat (map (\<lambda>p. failure_entries py_str p url)
                                  (invoked_scrapers scrapers called))
         \<and> (\<forall>p\<in>set (invoked_scrapers scrapers called).
               length (failure_entries py_str p url) = (if reports_failure p url then 1 else 0))"
proof -
  let ?errors = "accumulated py_str scrapers url"
  let ?called = "calls_from 0 scrapers url"
  have run: "combined_scrape py_str scrapers url = (Inr (all_failed ?errors), ?called)"
    using scrape_loop_passes_over[OF assms, of py_str 0 "[]" "[]" "[]"]
    by (simp add: combined_scrape_def)
  have inv: "invoked_scrapers scrapers ?called = filter (\<lambda>p. invoked p url) scrapers"
    using invoked_scrapers_filter[of scrapers 0 url] by (simp add: invoked_scrapers_def)
  have su: "map_of (all_failed ?errors) ''success'' = Some (PBool False)"
    by (simp add: all_failed_def)
  have er: "map_of (all_failed ?errors) ''errors'' = Some (PList (map PStr ?errors))"
    by (simp add: all_failed_def)
  have eq: "?errors = concat (map (\<lambda>p. failure_entries py_str p url)
                                  (invoked_scrapers scrapers ?called))"
    by (simp add: inv accumulated_filter)
  have cnt: "\<forall>p\<in>set (invoked_scrapers scrapers ?called).
               length (failure_entries py_str p url) = (if reports_failure p url then 1 else 0)"
  proof
    fix p assume "p \<in> set (invoked_scrapers scrapers ?called)"
    then have "p \<in> set scrapers" "invoked p url" by (simp_all add: inv)
    with assms have "fails p url"
      using skipped_not_invoked[of p url] by (auto simp: passes_over_def)
    then show "length (failure_entries py_str p url) = (if reports_failure p url then 1 else 0)"
      by (rule fails_entry_count)
  qed
  from run su er eq cnt show ?thesis by blast
qed

subsection \<open>The chain on the example scrapers\<close>

lemma ex_declines_passes: "passes_over ex_declines url"
  by (simp add: passes_over_def skipped_def ex_declines_def)

lemma ex_quiet_passes: "passes_over ex_quiet url"
  by (simp add: passes_over_def fails_def invoked_def is_success_def ex_quiet_def)

lemma ex_file_passes: "passes_over ex_file url"
  by (simp add: passes_over_def fails_def invoked_def is_success_def ex_file_def)

text \<open>On exhaustion the \<open>error\<close> entry is not the text \<open>All strategies failed\<close>.\<close>

theorem exhaustion_message_counterexample:
  "fst (combined_scrape ex_str [ex_declines, ex_quiet] ''http://example.com/'') =
     Inr (all_failed [])
   \<and> map_of (all_failed []) ''error'' = Some (PStr ''All scraping strategies failed'')
   \<and> map_of (all_failed []) ''error'' \<noteq> Some (PStr ''All strategies failed'')"
  by (simp add: combined_scrape_def loop_body_def run_scraper_def is_success_def all_failed_def
        ex_declines_def ex_quiet_def)

text \<open>A scraper that is invoked and fails without an \<open>error\<close> entry leaves no entry in
  \<open>errors\<close>: one invocation, no entries.\<close>

theorem silent_failure_counterexample:
  "combined_scrape ex_str [ex_quiet] ''http://example.com/'' =
     (Inr (all_failed []), [Call_can_handle 0, Call_scrape 0])
   \<and> map_of (all_failed []) ''errors'' = Some (PList [])
   \<and> invoked_positions [Call_can_handle 0, Call_scrape 0] = [0]"
  by (simp add: combined_scrape_def loop_body_def run_scraper_def is_success_def all_failed_def
        ex_quiet_def)

lemma ex_page_result:
  "scrape ex_page url = Inr [(''success'', PBool True), (''text'', PStr ''hello''),
      (''metadata'', PDict [(''title'', PStr ''T''), (''scraper'', PStr ''x'')])]"
  by (simp add: ex_page_def)

lemma ex_run_page:
  "combined_scrape ex_str [ex_declines, ex_page, ex_quiet] ''http://example.com/'' =
     (Inr [(''success'', PBool True), (''text'', PStr ''hello''),
           (''metadata'', PDict [(''title'', PStr ''T''), (''scraper'', PStr ''content'')])],
      [Call_can_handle 0, Call_can_handle 1, Call_scrape 1])"
  by (simp add: combined_scrape_def loop_body_def run_scraper_def is_success_def
        forward_success_def dict_setdefault_def ex_declines_def ex_page_def)

text \<open>The chain \<open>[ex_declines, ex_page, ex_quiet]\<close>: the first scraper is skipped, the
  second succeeds, the third is never called.\<close>

theorem first_success_wins_witness:
  "passes_over ex_declines ''http://example.com/''
   \<and> invoked ex_page ''http://example.com/''
   \<and> is_success [(''success'', PBool True), (''text'', PStr ''hello''),
        (''metadata'', PDict [(''title'', PStr ''T''), (''scraper'', PStr ''x'')])]
   \<and> metadata_ok [(''success'', PBool True), (''text'', PStr ''hello''),
        (''metadata'', PDict [(''title'', PStr ''T''), (''scraper'', PStr ''x'')])]
   \<and> combined_scrape ex_str [ex_declines, ex_page, ex_quiet] ''http://example.com/'' =
     (Inr [(''success'', PBool True), (''text'', PStr ''hello''),
           (''metadata'', PDict [(''title'', PStr ''T''), (''scraper'', PStr ''content'')])],
      [Call_can_handle 0, Call_can_handle 1, Call_scrape 1])"
proof -
  let ?u = "''http://example.com/''"
  let ?r = "[(''success'', PBool True), (''text'', PStr ''hello''),
        (''metadata'', PDict [(''title'', PStr ''T''), (''scraper'', PStr ''x'')])]"
  have h1: "\<forall>p\<in>set [ex_declines]. passes_over p ?u" by (simp add: ex_declines_passes)
  have h2: "invoked ex_page ?u" by (simp add: invoked_def ex_page_def)
  have h3: "scrape ex_page ?u = Inr ?r" by (rule ex_page_result)
  have h4: "is_success ?r" by (simp add: is_success_def)
  have h5: "metadata_ok ?r" by (simp add: metadata_ok_def)
  from first_success_wins[OF h1 h2 h3 h4 h5, of ex_str "[ex_quiet]"]
  have "\<exists>result1 called. combined_scrape ex_str [ex_declines, ex_page, ex_quiet] ?u =
          (Inr result1, called)" by auto
  with h1 h2 h4 h5 ex_run_page show ?thesis by simp
qed

text \<open>The same chain: \<open>ex_page\<close> had put \<open>x\<close> under \<open>scraper\<close>; \<open>title\<close> and \<open>text\<close>
  come back unchanged.\<close>

theorem success_frame_witness:
  "passes_over ex_declines ''http://example.com/''
   \<and> invoked ex_page ''http://example.com/''
   \<and> metadata_ok [(''success'', PBool True), (''text'', PStr ''hello''),
        (''metadata'', PDict [(''title'', PStr ''T''), (''scraper'', PStr ''x'')])]
   \<and> fst (combined_scrape ex_str [ex_declines, ex_page, ex_quiet] ''http://example.com/'') =
      Inr [(''success'', PBool True), (''text'', PStr ''hello''),
           (''metadata'', PDict [(''title'', PStr ''T''), (''scraper'', PStr ''content'')])]"
proof -
  let ?u = "''http://example.com/''"
  let ?r = "[(''success'', PBool True), (''text'', PStr ''hello''),
        (''metadata'', PDict [(''title'', PStr ''T''), (''scraper'', PStr ''x'')])]"
  have h1: "\<forall>p\<in>set [ex_declines]. passes_over p ?u" by (simp add: ex_declines_passes)
  have h2: "invoked ex_page ?u" by (simp add: invoked_def ex_page_def)
  have h3: "scrape ex_page ?u = Inr ?r" by (rule ex_page_result)
  have h4: "is_success ?r" by (simp add: is_success_def)
  have h5: "metadata_ok ?r" by (simp add: metadata_ok_def)
  from success_frame[OF h1 h2 h3 h4 h5, of ex_str "[ex_quiet]"]
  have "\<exists>result1 called. combined_scrape ex_str [ex_declines, ex_page, ex_quiet] ?u =
          (Inr result1, called)" by auto
  with h1 h2 h5 ex_run_page show ?thesis by simp
qed

lemma ex_run_file:
  "combined_scrape ex_str [ex_declines, ex_file, ex_broken, ex_quiet] ''http://example.com/'' =
     (Inr (all_failed [''file: Resource appears to be HTML'']),
      [Call_can_handle 0, Call_scrape 1, Call_can_handle 2, Call_can_handle 3, Call_scrape 3])"
  by (simp add: combined_scrape_def loop_body_def run_scraper_def is_success_def ex_str_def
        ex_declines_def ex_file_def ex_broken_def ex_quiet_def)

text \<open>\<open>ex_file\<close> declines the target in \<open>can_handle\<close> and is invoked all the same;
  \<open>ex_broken\<close>, whose \<open>can_handle\<close> raises, is skipped.\<close>

theorem file_scraper_always_attempted_witness:
  "passes_over ex_declines ''http://example.com/''
   \<and> name ex_file = ''file''
   \<and> can_handle ex_file ''http://example.com/'' = Inr False
   \<and> snd (combined_scrape ex_str [ex_declines, ex_file, ex_broken, ex_quiet]
            ''http://example.com/'') =
      [Call_can_handle 0, Call_scrape 1, Call_can_handle 2, Call_can_handle 3, Call_scrape 3]"
proof -
  let ?u = "''http://example.com/''"
  have h1: "\<forall>p\<in>set [ex_declines]. passes_over p ?u" by (simp add: ex_declines_passes)
  have n: "name ex_file = ''file''" "can_handle ex_file ?u = Inr False"
    by (simp_all add: ex_file_def)
  from file_scraper_always_attempted[OF h1, of ex_file ex_str "[ex_broken, ex_quiet]"] n
  have "Call_scrape 1 \<in> set (snd (combined_scrape ex_str
          [ex_declines, ex_file, ex_broken, ex_quiet] ?u))" by simp
  with h1 n ex_run_file show ?thesis by simp
qed

text \<open>A chain in which nothing succeeds.\<close>

theorem exhaustion_result_witness:
  "passes_over ex_declines ''http://example.com/''
   \<and> passes_over ex_file ''http://example.com/''
   \<and> passes_over ex_quiet ''http://example.com/''
   \<and> fst (combined_scrape ex_str [ex_declines, ex_file, ex_quiet] ''http://example.com/'') =
      Inr [(''success'', PBool False),
           (''text'', PStr ''''),
           (''images'', PList []),
           (''links'', PList []),
           (''metadata'', PDict [(''scraper'', PStr ''none'')]),
           (''errors'', PList [PStr ''file: Resource appears to be HTML'']),
           (''error'', PStr ''All scraping strategies failed'')]"
proof -
  let ?u = "''http://example.com/''"
  have h: "\<forall>p\<in>set [ex_declines, ex_file, ex_quiet]. passes_over p ?u"
    by (simp add: ex_declines_passes ex_file_passes ex_quiet_passes)
  have acc: "accumulated ex_str [ex_declines, ex_file, ex_quiet] ?u =
             [''file: Resource appears to be HTML'']"
    by (simp add: accumulated_def invoked_def failure_entries_def ex_str_def
          ex_declines_def ex_file_def ex_quiet_def)
  from exhaustion_result[OF h, of ex_str] acc h show ?thesis by simp
qed

text \<open>Two scrapers are invoked, one of them reports its failure.\<close>

theorem errors_of_reporting_strategies_witness:
  "passes_over ex_declines ''http://example.com/''
   \<and> passes_over ex_file ''http://example.com/''
   \<and> passes_over ex_quiet ''http://example.com/''
   \<and> combined_scrape ex_str [ex_declines, ex_file, ex_quiet] ''http://example.com/'' =
      (Inr (all_failed [''file: Resource appears to be HTML'']),
       [Call_can_handle 0, Call_scrape 1, Call_can_handle 2, Call_scrape 2])
   \<and> invoked_positions [Call_can_handle 0, Call_scrape 1, Call_can_handle 2, Call_scrape 2] = [1, 2]
   \<and> failure_entries ex_str ex_file ''http://example.com/'' = [''file: Resource appears to be HTML'']
   \<and> failure_entries ex_str ex_quiet ''http://example.com/'' = []"
proof -
  let ?u = "''http://example.com/''"
  have h: "\<forall>p\<in>set [ex_declines, ex_file, ex_quiet]. passes_over p ?u"
    by (simp add: ex_declines_passes ex_file_passes ex_quiet_passes)
  have ev: "combined_scrape ex_str [ex_declines, ex_file, ex_quiet] ?u =
      (Inr (all_failed [''file: Resource appears to be HTML'']),
       [Call_can_handle 0, Call_scrape 1, Call_can_handle 2, Call_scrape 2])"
    by (simp add: combined_scrape_def loop_body_def run_scraper_def is_success_def ex_str_def
        ex_declines_def ex_file_def ex_quiet_def)
  have fe: "failure_entries ex_str ex_file ?u = [''file: Resource appears to be HTML'']"
           "failure_entries ex_str ex_quiet ?u = []"
    by (simp_all add: failure_entries_def ex_str_def ex_file_def ex_quiet_def)
  from errors_of_reporting_strategies[OF h, of ex_str]
  have "\<exists>result called. combined_scrape ex_str [ex_declines, ex_file, ex_quiet] ?u =
          (Inr result, called)" by blast
  with h ev fe show ?thesis by simp
qed

section \<open>Properties of the task manager\<close>

subsection \<open>Schedules and invariants\<close>

lemma steps_append: "steps s2 s3 \<Longrightarrow> steps s1 s2 \<Longrightarrow> steps s1 s3"
  by (induction rule: steps.induct) (auto intro: steps.intros)

lemma run_steps: "run as s = Some s1 \<Longrightarrow> steps s s1"
proof (induction as arbitrary: s)
  case Nil
  then show ?case by (simp add: steps_refl)
next
  case (Cons a as)
  then obtain s0 where f: "fire a s = Some s0" and r: "run as s0 = Some s1"
    by (auto split: option.splits)
  have "steps s s0" using steps_step[OF steps_refl f] .
  with Cons.IH[OF r] show ?case by (rule steps_append)
qed

lemma refs_allocated_fire:
  "fire a s = Some s1 \<Longrightarrow> refs_allocated s \<Longrightarrow> refs_allocated s1"
  unfolding refs_allocated_def
  by (cases a)
     (fastforce simp: cancel_request_def less_Suc_eq
           split: if_splits option.splits prod.splits pc.splits sum.splits)+

lemma registered_ok_fire:
  "fire a s = Some s1 \<Longrightarrow> registered_ok s \<Longrightarrow> registered_ok s1"
  unfolding registered_ok_def
  by (cases a)
     (fastforce simp: cancel_request_def
           split: if_splits option.splits prod.splits pc.splits sum.splits)+

lemma callbacks_owned_fire:
  "fire a s = Some s1 \<Longrightarrow> callbacks_owned s \<Longrightarrow> callbacks_owned s1"
  unfolding callbacks_owned_def
  by (cases a)
     (fastforce simp: cancel_request_def future_cancel_def new_future_def
           split: if_splits option.splits prod.splits pc.splits sum.splits)+

lemma started_registered_fire:
  "fire a s = Some s1 \<Longrightarrow> started_registered s \<Longrightarrow> started_registered s1"
  unfolding started_registered_def
  by (cases a)
     (fastforce simp: cancel_request_def
           split: if_splits option.splits prod.splits pc.splits sum.splits)+

lemma callback_waiting_fire:
  "fire a s = Some s1 \<Longrightarrow> refs_allocated s \<Longrightarrow> callback_waiting s \<Longrightarrow> callback_waiting s1"
  unfolding callback_waiting_def refs_allocated_def
  by (cases a)
     (fastforce simp: cancel_request_def future_cancel_def future_done_def
           split: if_splits option.splits prod.splits pc.splits sum.splits)+

lemma well_formed_init: "well_formed init"
  by (simp add: well_formed_def refs_allocated_def registered_ok_def callbacks_owned_def
        started_registered_def callback_waiting_def init_def new_future_def)

lemma well_formed_fire: "fire a s = Some s1 \<Longrightarrow> well_formed s \<Longrightarrow> well_formed s1"
  unfolding well_formed_def
  using refs_allocated_fire registered_ok_fire callbacks_owned_fire started_registered_fire
    callback_waiting_fire
  by blast

lemma well_formed_steps: "steps s s1 \<Longrightarrow> well_formed s \<Longrightarrow> well_formed s1"
  by (induction rule: steps.induct) (auto intro: well_formed_fire)

lemma reachable_well_formed: "reachable s \<Longrightarrow> well_formed s"
  unfolding reachable_def using well_formed_steps well_formed_init by blast

lemma reachable_steps: "reachable s \<Longrightarrow> steps s s1 \<Longrightarrow> reachable s1"
  unfolding reachable_def by (rule steps_append)

lemma reachable_run: "run as init = Some s \<Longrightarrow> reachable s"
  unfolding reachable_def by (rule run_steps)

subsection \<open>Callbacks\<close>

lemma future_result_cancelled:
  "cancelled fut \<Longrightarrow> future_result fut = Some (Inl (Exception []))"
  by (auto simp: cancelled_def future_result_def)

lemma callback_cancelled:
  "cancelled fut \<Longrightarrow> callback j fut res = Some (Inr (res(j \<mapsto> cancelled_result)))"
  by (simp add: callback_def future_result_cancelled callback_result_def cancelled_result_def)

lemma invoke_callbacks_cancelled:
  "cancelled fut \<Longrightarrow>
   \<exists>res1. invoke_callbacks fut cbs res = Some res1
        \<and> (\<forall>k. res1 k = (if k \<in> set cbs then Some cancelled_result else res k))"
proof (induction cbs arbitrary: res)
  case Nil
  then show ?case by simp
next
  case (Cons j cbs)
  from Cons.IH[OF Cons.prems, of "res(j \<mapsto> cancelled_result)"] obtain res1 where
    r: "invoke_callbacks fut cbs (res(j \<mapsto> cancelled_result)) = Some res1"
       "\<forall>k. res1 k = (if k \<in> set cbs then Some cancelled_result
                      else (res(j \<mapsto> cancelled_result)) k)" by blast
  have "invoke_callbacks fut (j # cbs) res = Some res1"
    using r(1) by (simp add: callback_cancelled[OF Cons.prems])
  moreover have "\<forall>k. res1 k = (if k \<in> set (j # cbs) then Some cancelled_result else res k)"
    using r(2) by auto
  ultimately show ?case by blast
qed


subsection \<open>A cancelled job stays cancelled\<close>




lemma reachable_init: "reachable init"
  by (simp add: reachable_def steps_refl)

lemma reachable_after: "reachable (after as)"
  by (auto simp: after_def reachable_init reachable_run split: option.splits)

subsection \<open>cancel\<close>

lemma cancel_pending:
  assumes "futures s j = Some r" "fstate (heap s r) = PENDING"
  shows "\<exists>s1. cancel s j = Some (True, s1)
            \<and> run [Cancel j, Invoke_callbacks r] s = Some s1
            \<and> cancelled (heap s1 r) \<and> futures s1 = futures s \<and> submits s1 = submits s
            \<and> (\<forall>k. results s1 k = (if k \<in> set (done_callbacks (heap s r))
                                    then Some cancelled_result else results s k))"
proof -
  let ?fut = "(heap s r)\<lparr>fstate := CANCELLED\<rparr>"
  have c: "cancelled ?fut" by (simp add: cancelled_def)
  from invoke_callbacks_cancelled[OF c, of "done_callbacks (heap s r)" "results s"]
  obtain res1 where
    i: "invoke_callbacks ?fut (done_callbacks (heap s r)) (results s) = Some res1"
    and k: "\<forall>k. res1 k = (if k \<in> set (done_callbacks (heap s r))
                          then Some cancelled_result else results s k)" by blast
  let ?s1 = "s\<lparr>heap := (heap s)(r := ?fut), notifying := insert r (notifying s),
               results := res1, notifying := insert r (notifying s) - {r}\<rparr>"
  have cr: "cancel_request j s =
            (True, s\<lparr>heap := (heap s)(r := ?fut), notifying := insert r (notifying s)\<rparr>)"
    using assms by (simp add: cancel_request_def future_cancel_def)
  have "cancel s j = Some (True, ?s1)"
    using assms i by (simp add: cancel_def cr future_cancel_def)
  moreover have "run [Cancel j, Invoke_callbacks r] s = Some ?s1"
    using i by (simp add: cr)
  moreover have "cancelled (heap ?s1 r)" using c by simp
  moreover have "futures ?s1 = futures s" "submits ?s1 = submits s" by simp_all
  moreover have "\<forall>k. results ?s1 k = (if k \<in> set (done_callbacks (heap s r))
                                    then Some cancelled_result else results s k)"
    using k by simp
  ultimately show ?thesis by blast
qed


lemma cancel_total: "\<exists>ret s1. cancel s j = Some (ret, s1)"
proof (cases "futures s j")
  case None
  then have "cancel s j = Some (False, s)" by (simp add: cancel_def)
  then show ?thesis by blast
next
  case (Some r)
  show ?thesis
  proof (cases "fstate (heap s r) = PENDING")
    case True
    from cancel_pending[OF Some True] show ?thesis by blast
  next
    case False
    with Some show ?thesis
      by (cases "fstate (heap s r)") (auto simp: cancel_def future_cancel_def)
  qed
qed

lemma cancel_request_unchanged:
  "futures s j = Some r \<Longrightarrow> fstate (heap s r) \<noteq> PENDING \<Longrightarrow> snd (cancel_request j s) = s"
  by (cases "fstate (heap s r)") (simp_all add: cancel_request_def future_cancel_def)

text \<open>
  Claim C7.  In every state and for every identifier \<open>cancel\<close> returns.  It returns true
  only for a known job whose work has not begun; it returns false for an unknown
  identifier and for a job that is running or has finished running, and then changes
  nothing.
\<close>

theorem cancel_return_value:
  "(\<exists>ret s1. cancel s j = Some (ret, s1))
   \<and> (\<forall>s1. cancel s j = Some (True, s1) \<longrightarrow>
          (\<exists>r. futures s j = Some r \<and> \<not> work_begun (heap s r)))
   \<and> (futures s j = None \<longrightarrow> cancel s j = Some (False, s))
   \<and> (\<forall>r. futures s j = Some r \<and> work_begun (heap s r) \<longrightarrow> cancel s j = Some (False, s))"
proof -
  have total: "\<exists>ret s1. cancel s j = Some (ret, s1)" by (rule cancel_total)
  have unknown: "futures s j = None \<longrightarrow> cancel s j = Some (False, s)"
    by (simp add: cancel_def)
  have begun: "\<forall>r. futures s j = Some r \<and> work_begun (heap s r) \<longrightarrow> cancel s j = Some (False, s)"
  proof (intro allI impI)
    fix r assume a: "futures s j = Some r \<and> work_begun (heap s r)"
    then have "fstate (heap s r) \<noteq> PENDING" by (auto simp: work_begun_def)
    with a have "snd (cancel_request j s) = s" by (simp add: cancel_request_unchanged)
    with a show "cancel s j = Some (False, s)"
      by (auto simp: cancel_def future_cancel_def work_begun_def)
  qed
  have only: "\<forall>s1. cancel s j = Some (True, s1) \<longrightarrow>
          (\<exists>r. futures s j = Some r \<and> \<not> work_begun (heap s r))"
  proof (intro allI impI)
    fix s1 assume t: "cancel s j = Some (True, s1)"
    show "\<exists>r. futures s j = Some r \<and> \<not> work_begun (heap s r)"
    proof (cases "futures s j")
      case None
      with t show ?thesis by (simp add: cancel_def)
    next
      case (Some r)
      have "\<not> work_begun (heap s r)"
      proof
        assume "work_begun (heap s r)"
        with Some begun have "cancel s j = Some (False, s)" by blast
        with t show False by simp
      qed
      with Some show ?thesis by blast
    qed
  qed
  from total only unknown begun show ?thesis by blast
qed

subsection \<open>get\_status\<close>

text \<open>
  What \<open>get_status\<close> returns in a reachable state before the job is done: \<open>(None, None)\<close>
  for an identifier that no call of \<open>submit\<close> has drawn, \<open>(pending, None)\<close> for a job
  whose future is pending or running; the status is \<open>None\<close> exactly for the identifiers
  that are not in \<open>self._futures\<close>, never for a pending job.
\<close>

lemma get_status_unknown_or_pending:
  assumes "reachable s"
  shows "(submits s j = None \<longrightarrow> get_status s j = (None, None))
       \<and> (\<forall>r. futures s j = Some r
               \<and> (fstate (heap s r) = PENDING \<or> fstate (heap s r) = RUNNING) \<longrightarrow>
               get_status s j = (Some ''pending'', None))
       \<and> (fst (get_status s j) = None) = (futures s j = None)"
proof -
  have "registered_ok s" using reachable_well_formed[OF assms] by (simp add: well_formed_def)
  then have unknown: "submits s j = None \<longrightarrow> futures s j = None"
    unfolding registered_ok_def by (cases "futures s j") fastforce+
  show ?thesis
    using unknown
    by (auto simp: get_status_def get_status_locked_def get_status_decide_def future_done_def
             split: option.splits)
qed

subsection \<open>Completion\<close>

lemma invoke_callbacks_stores:
  assumes "future_result fut = Some out" "callback_result out = Inr d"
  shows "\<exists>res1. invoke_callbacks fut cbs res = Some res1
        \<and> (\<forall>k. res1 k = (if k \<in> set cbs then Some d else res k))"
proof (induction cbs arbitrary: res)
  case Nil
  then show ?case by simp
next
  case (Cons j cbs)
  from Cons.IH[of "res(j \<mapsto> d)"] obtain res1 where
    r: "invoke_callbacks fut cbs (res(j \<mapsto> d)) = Some res1"
       "\<forall>k. res1 k = (if k \<in> set cbs then Some d else (res(j \<mapsto> d)) k)" by blast
  have "callback j fut res = Some (Inr (res(j \<mapsto> d)))"
    using assms by (simp add: callback_def)
  then have "invoke_callbacks fut (j # cbs) res = Some res1"
    using r(1) by simp
  moreover have "\<forall>k. res1 k = (if k \<in> set (j # cbs) then Some d else res k)"
    using r(2) by auto
  ultimately show ?case by blast
qed

lemma callback_result_caught: "caught w \<Longrightarrow> callback_result w = Inr (stored_result w)"
  by (auto simp: caught_def callback_result_def stored_result_def py_type_str_def
           split: sum.splits pyexc.splits pyval.splits)

text \<open>
  Claim C8, amended.  For a job whose work is running and whose call of \<open>submit\<close> has
  returned, the completion by the worker (\<open>Worker_finish\<close>, then \<open>Invoke_callbacks\<close>)
  stores under the job's identifier: for work that raises an \<open>Exception\<close>, the failure
  \<open>{success: False, error: str(exc)}\<close>; for work that returns a dictionary, this
  dictionary; for work that returns anything else, the failure whose \<open>error\<close> is
  \<open>Invalid result type\<close> followed by the type of the value.  The same is stored by
  \<open>add_done_callback\<close> when the work has finished before the callback is added.
\<close>

theorem completion_stores_result:
  assumes "reachable s"
  shows "(\<forall>r. submits s j = Some (r, Returned) \<and> fstate (heap s r) = RUNNING
              \<and> caught (work (heap s r)) \<longrightarrow>
            (\<exists>s1 s2. fire (Worker_finish r) s = Some s1
                   \<and> fire (Invoke_callbacks r) s1 = Some s2
                   \<and> results s2 j = Some (stored_result (work (heap s r)))
                   \<and> get_status s2 j = (Some ''finished'', Some (stored_result (work (heap s r))))))
       \<and> (\<forall>r. submits s j = Some (r, Registered) \<and> fstate (heap s r) = FINISHED
              \<and> caught (outcome (heap s r)) \<longrightarrow>
            (\<exists>s1. fire (Submit_add_callback j) s = Some s1
                 \<and> results s1 j = Some (stored_result (outcome (heap s r)))
                 \<and> get_status s1 j = (Some ''finished'', Some (stored_result (outcome (heap s r))))))"
proof -
  have wf: "well_formed s" using assms by (rule reachable_well_formed)
  have first: "\<forall>r. submits s j = Some (r, Returned) \<and> fstate (heap s r) = RUNNING
              \<and> caught (work (heap s r)) \<longrightarrow>
            (\<exists>s1 s2. fire (Worker_finish r) s = Some s1
                   \<and> fire (Invoke_callbacks r) s1 = Some s2
                   \<and> results s2 j = Some (stored_result (work (heap s r)))
                   \<and> get_status s2 j = (Some ''finished'', Some (stored_result (work (heap s r)))))"
  proof (intro allI impI)
    fix r
    assume a: "submits s j = Some (r, Returned) \<and> fstate (heap s r) = RUNNING
               \<and> caught (work (heap s r))"
    let ?w = "work (heap s r)"
    let ?fut = "(heap s r)\<lparr>fstate := FINISHED, outcome := ?w\<rparr>"
    let ?s1 = "s\<lparr>heap := (heap s)(r := ?fut), notifying := insert r (notifying s)\<rparr>"
    from wf a have alloc: "r < next_ref s" by (auto simp: well_formed_def refs_allocated_def)
    from wf a have fut: "futures s j = Some r"
      by (auto simp: well_formed_def started_registered_def)
    from a have "\<not> future_done (heap s r)" by (simp add: future_done_def)
    with wf a have cb: "j \<in> set (done_callbacks (heap s r))"
      by (auto simp: well_formed_def callback_waiting_def)
    have f1: "fire (Worker_finish r) s = Some ?s1" using a alloc by simp
    have fr: "future_result ?fut = Some ?w" by (simp add: future_result_def)
    from a have cr: "callback_result ?w = Inr (stored_result ?w)"
      by (simp add: callback_result_caught)
    from invoke_callbacks_stores[OF fr cr, of "done_callbacks (heap s r)" "results s"]
    obtain res1 where
      i: "invoke_callbacks ?fut (done_callbacks (heap s r)) (results s) = Some res1"
      and k: "\<forall>k. res1 k = (if k \<in> set (done_callbacks (heap s r))
                            then Some (stored_result ?w) else results s k)" by blast
    let ?s2 = "?s1\<lparr>results := res1, notifying := notifying ?s1 - {r}\<rparr>"
    have f2: "fire (Invoke_callbacks r) ?s1 = Some ?s2" using i by simp
    have r2: "results ?s2 j = Some (stored_result ?w)" using k cb by simp
    have g2: "get_status ?s2 j = (Some ''finished'', Some (stored_result ?w))"
      using r2 fut
      by (simp add: get_status_def get_status_locked_def get_status_decide_def future_done_def)
    from f1 f2 r2 g2
    show "\<exists>s1 s2. fire (Worker_finish r) s = Some s1
                   \<and> fire (Invoke_callbacks r) s1 = Some s2
                   \<and> results s2 j = Some (stored_result ?w)
                   \<and> get_status s2 j = (Some ''finished'', Some (stored_result ?w))"
      by blast
  qed
  have second: "\<forall>r. submits s j = Some (r, Registered) \<and> fstate (heap s r) = FINISHED
              \<and> caught (outcome (heap s r)) \<longrightarrow>
            (\<exists>s1. fire (Submit_add_callback j) s = Some s1
                 \<and> results s1 j = Some (stored_result (outcome (heap s r)))
                 \<and> get_status s1 j = (Some ''finished'', Some (stored_result (outcome (heap s r)))))"
  proof (intro allI impI)
    fix r
    assume a: "submits s j = Some (r, Registered) \<and> fstate (heap s r) = FINISHED
               \<and> caught (outcome (heap s r))"
    let ?w = "outcome (heap s r)"
    let ?s1 = "s\<lparr>results := (results s)(j \<mapsto> stored_result ?w),
                 submits := (submits s)(j \<mapsto> (r, Returned))\<rparr>"
    from wf a have fut: "futures s j = Some r"
      by (auto simp: well_formed_def started_registered_def)
    from a have d: "future_done (heap s r)" by (simp add: future_done_def)
    from a have fr: "future_result (heap s r) = Some ?w" by (simp add: future_result_def)
    from a have cr: "callback_result ?w = Inr (stored_result ?w)"
      by (simp add: callback_result_caught)
    have f1: "fire (Submit_add_callback j) s = Some ?s1"
      using a d fr cr by (simp add: callback_def)
    have r1: "results ?s1 j = Some (stored_result ?w)" by simp
    have g1: "get_status ?s1 j = (Some ''finished'', Some (stored_result ?w))"
      using fut d by (simp add: get_status_def get_status_locked_def get_status_decide_def)
    from f1 r1 g1
    show "\<exists>s1. fire (Submit_add_callback j) s = Some s1
                 \<and> results s1 j = Some (stored_result ?w)
                 \<and> get_status s1 j = (Some ''finished'', Some (stored_result ?w))"
      by blast
  qed
  from first second show ?thesis by blast
qed

subsection \<open>The task manager on example schedules\<close>

lemmas ex_eval =
  after_def ex_submit_def init_def new_future_def future_done_def future_result_def
  callback_def callback_result_def cancel_def cancel_request_def future_cancel_def
  get_status_def get_status_locked_def get_status_decide_def py_type_str_def quote_def

lemma ex_queued:
  "after (ex_submit w) =
     \<lparr>heap = (\<lambda>r. new_future (Inr PNone))
               (0 := \<lparr>fstate = PENDING, work = w, outcome = Inr PNone, done_callbacks = [''job'']\<rparr>),
      futures = [''job'' \<mapsto> 0], results = Map.empty,
      submits = [''job'' \<mapsto> (0, Returned)], notifying = {}, next_ref = Suc 0\<rparr>"
  by (simp add: ex_eval)

text \<open>
  Claim C5.  After one \<open>submit\<close>, a worker runs the job to the end of \<open>set_result\<close>.
  Before that worker has invoked the callbacks, \<open>get_status\<close> returns \<open>finished\<close> with no
  result.  The same pair is returned when the reads under the lock come before the
  completion and the test \<open>future.done()\<close> after it.
\<close>

theorem finished_without_result:
  "run (ex_submit (Inr (PDict [(''success'', PBool True)])) @ [Worker_claim 0, Worker_finish 0])
       init \<noteq> None
   \<and> get_status
       (after (ex_submit (Inr (PDict [(''success'', PBool True)]))
               @ [Worker_claim 0, Worker_finish 0])) ''job''
     = (Some ''finished'', None)
   \<and> run (ex_submit (Inr (PDict [(''success'', PBool True)]))
           @ [Worker_claim 0, Worker_finish 0, Invoke_callbacks 0]) init \<noteq> None
   \<and> get_status_decide
       (after (ex_submit (Inr (PDict [(''success'', PBool True)]))
               @ [Worker_claim 0, Worker_finish 0, Invoke_callbacks 0]))
       (get_status_locked
          (after (ex_submit (Inr (PDict [(''success'', PBool True)])) @ [Worker_claim 0]))
          ''job'')
     = (Some ''finished'', None)"
  by (simp add: ex_eval)

text \<open>
  Claim C4.  \<open>get_status\<close> is to return \<open>(finished, result)\<close> once the job is complete.
  After one \<open>submit\<close> of work that returns \<open>{success: True, text: hello}\<close> a worker
  completes the job: the future is \<open>FINISHED\<close> and holds that dictionary.  The identifier
  is known, the job is neither pending nor running, and \<open>get_status\<close> returns \<open>finished\<close>
  with \<open>None\<close> in place of the result; only after the worker has also invoked the
  callbacks does it return \<open>finished\<close> with the dictionary.
\<close>

theorem complete_job_reported_without_result:
  "run (ex_submit (Inr (PDict [(''success'', PBool True), (''text'', PStr ''hello'')]))
        @ [Worker_claim 0, Worker_finish 0, Invoke_callbacks 0]) init \<noteq> None
   \<and> futures (after (ex_submit (Inr (PDict [(''success'', PBool True), (''text'', PStr ''hello'')]))
                      @ [Worker_claim 0, Worker_finish 0])) ''job'' = Some 0
   \<and> fstate (heap (after (ex_submit (Inr (PDict [(''success'', PBool True),
                                                    (''text'', PStr ''hello'')]))
                            @ [Worker_claim 0, Worker_finish 0])) 0) = FINISHED
   \<and> outcome (heap (after (ex_submit (Inr (PDict [(''success'', PBool True),
                                                     (''text'', PStr ''hello'')]))
                             @ [Worker_claim 0, Worker_finish 0])) 0) =
       Inr (PDict [(''success'', PBool True), (''text'', PStr ''hello'')])
   \<and> get_status (after (ex_submit (Inr (PDict [(''success'', PBool True),
                                                  (''text'', PStr ''hello'')]))
                          @ [Worker_claim 0, Worker_finish 0])) ''job'' =
       (Some ''finished'', None)
   \<and> get_status (after (ex_submit (Inr (PDict [(''success'', PBool True),
                                                  (''text'', PStr ''hello'')]))
                          @ [Worker_claim 0, Worker_finish 0, Invoke_callbacks 0])) ''job'' =
       (Some ''finished'', Some [(''success'', PBool True), (''text'', PStr ''hello'')])"
  by (simp add: ex_eval)

text \<open>An identifier never drawn and a pending job.\<close>

lemma get_status_unknown_or_pending_example:
  "submits (after (ex_submit (Inr PNone))) ''other'' = None
   \<and> get_status (after (ex_submit (Inr PNone))) ''other'' = (None, None)
   \<and> futures (after (ex_submit (Inr PNone))) ''job'' = Some 0
   \<and> fstate (heap (after (ex_submit (Inr PNone))) 0) = PENDING
   \<and> get_status (after (ex_submit (Inr PNone))) ''job'' = (Some ''pending'', None)"
proof -
  let ?s = "after (ex_submit (Inr PNone))"
  have h1: "submits ?s ''other'' = None" by (simp add: ex_queued)
  have h2: "futures ?s ''job'' = Some 0" by (simp add: ex_queued)
  have h3: "fstate (heap ?s 0) = PENDING" by (simp add: ex_queued)
  from get_status_unknown_or_pending[OF reachable_after, of "ex_submit (Inr PNone)" "''other''"] h1
  have g1: "get_status ?s ''other'' = (None, None)" by blast
  from get_status_unknown_or_pending[OF reachable_after, of "ex_submit (Inr PNone)" "''job''"] h2 h3
  have g2: "get_status ?s ''job'' = (Some ''pending'', None)" by blast
  from h1 g1 h2 h3 g2 show ?thesis by blast
qed



text \<open>\<open>cancel\<close> on a running job and on an unknown identifier.\<close>

theorem cancel_return_value_witness:
  "futures (after (ex_submit (Inr PNone) @ [Worker_claim 0])) ''job'' = Some 0
   \<and> work_begun (heap (after (ex_submit (Inr PNone) @ [Worker_claim 0])) 0)
   \<and> cancel (after (ex_submit (Inr PNone) @ [Worker_claim 0])) ''job'' =
       Some (False, after (ex_submit (Inr PNone) @ [Worker_claim 0]))
   \<and> futures (after (ex_submit (Inr PNone))) ''other'' = None
   \<and> cancel (after (ex_submit (Inr PNone))) ''other'' = Some (False, after (ex_submit (Inr PNone)))"
proof -
  let ?s = "after (ex_submit (Inr PNone))"
  let ?run = "after (ex_submit (Inr PNone) @ [Worker_claim 0])"
  have h1: "futures ?run ''job'' = Some 0" by (simp add: ex_eval)
  have h2: "work_begun (heap ?run 0)" by (simp add: work_begun_def ex_eval)
  have h3: "futures ?s ''other'' = None" by (simp add: ex_queued)
  from cancel_return_value[of ?run "''job''"] h1 h2
  have c1: "cancel ?run ''job'' = Some (False, ?run)" by blast
  from cancel_return_value[of ?s "''other''"] h3
  have c2: "cancel ?s ''other'' = Some (False, ?s)" by blast
  from h1 h2 c1 h3 c2 show ?thesis by blast
qed

text \<open>Work that returns the integer 5.\<close>

theorem invalid_result_text_counterexample:
  "run (ex_submit (Inr (PInt 5)) @ [Worker_claim 0, Worker_finish 0, Invoke_callbacks 0]) init
     \<noteq> None
   \<and> results (after (ex_submit (Inr (PInt 5))
                      @ [Worker_claim 0, Worker_finish 0, Invoke_callbacks 0])) ''job'' =
       Some [(''success'', PBool False),
             (''error'', PStr (''Invalid result type <class '' @ [CHR 0x27] @ ''int''
                               @ [CHR 0x27] @ ''>''))]
   \<and> results (after (ex_submit (Inr (PInt 5))
                      @ [Worker_claim 0, Worker_finish 0, Invoke_callbacks 0])) ''job'' \<noteq>
       Some [(''success'', PBool False), (''error'', PStr ''invalid result type'')]"
  by (simp add: ex_eval)

text \<open>Work that raises an \<open>Exception\<close>.\<close>

theorem completion_stores_result_witness:
  "submits (after (ex_submit (Inl (Exception ''timed out'')) @ [Worker_claim 0])) ''job'' =
     Some (0, Returned)
   \<and> fstate (heap (after (ex_submit (Inl (Exception ''timed out'')) @ [Worker_claim 0])) 0) =
     RUNNING
   \<and> caught (work (heap (after (ex_submit (Inl (Exception ''timed out'')) @ [Worker_claim 0])) 0))
   \<and> results (after (ex_submit (Inl (Exception ''timed out''))
                      @ [Worker_claim 0, Worker_finish 0, Invoke_callbacks 0])) ''job'' =
       Some [(''success'', PBool False), (''error'', PStr ''timed out'')]"
proof -
  let ?s = "after (ex_submit (Inl (Exception ''timed out'')) @ [Worker_claim 0])"
  have h1: "submits ?s ''job'' = Some (0, Returned)" by (simp add: ex_eval)
  have h2: "fstate (heap ?s 0) = RUNNING" by (simp add: ex_eval)
  have h3: "caught (work (heap ?s 0))" by (simp add: caught_def ex_eval)
  from completion_stores_result[OF reachable_after,
         of "ex_submit (Inl (Exception ''timed out'')) @ [Worker_claim 0]" "''job''"] h1 h2 h3
  have "\<exists>s1 s2. fire (Worker_finish 0) ?s = Some s1 \<and> fire (Invoke_callbacks 0) s1 = Some s2"
    by blast
  moreover have "results (after (ex_submit (Inl (Exception ''timed out''))
                      @ [Worker_claim 0, Worker_finish 0, Invoke_callbacks 0])) ''job'' =
       Some [(''success'', PBool False), (''error'', PStr ''timed out'')]"
    by (simp add: ex_eval)
  ultimately show ?thesis using h1 h2 h3 by blast
qed

end
